theory Spec2Isabelle
  imports Complex_Main
begin

section \<open>Beat alignment utilities of audio.py\<close>

text \<open>
  The timing helpers of \<^verbatim>\<open>python/openpose/audio/audio.py\<close> work on one-dimensional
  numpy arrays of timestamps. An array is a list here, and a finite float is the real
  number it denotes: rounding of the float operations is abstracted, and the values
  \<^verbatim>\<open>nan\<close> and \<^verbatim>\<open>inf\<close> do not occur among timestamps. The one place where the
  code uses \<^verbatim>\<open>np.inf\<close>, the initial best score, has a type of its own. Which of several
  candidate lags wins the search depends on the rounded scores, so the search is given a
  second time with the rounding of each operation written out.

  Indexing an array out of range raises in Python, so a call returns either an error or
  a value.
\<close>

datatype error = IndexError

subsection \<open>Library operations used by the helpers\<close>

text \<open>
  \<^verbatim>\<open>cKDTree(data).query(x, k=1)\<close> on one-dimensional points: the distance to a nearest
  point of \<open>data\<close> and its index. Which of several nearest points is reported is left
  open by the library; the scan below reports the first one.
\<close>

fun nearest_index :: "real list \<Rightarrow> real \<Rightarrow> nat" where
  "nearest_index [] x = 0"
| "nearest_index [p] x = 0"
| "nearest_index (p # ps) x =
     (let j = nearest_index ps x
      in if \<bar>x - p\<bar> \<le> \<bar>x - ps ! j\<bar> then 0 else Suc j)"

definition query :: "real list \<Rightarrow> real list \<Rightarrow> real list \<times> nat list" where
  "query data xs =
     (let idxs = map (nearest_index data) xs
      in (map (\<lambda>(x, i). \<bar>x - data ! i\<bar>) (zip xs idxs), idxs))"

text \<open>\<^verbatim>\<open>a[idxs]\<close>: the elements at the given positions, \<^verbatim>\<open>IndexError\<close> out of range.\<close>

definition take_idxs :: "'a list \<Rightarrow> nat list \<Rightarrow> error + 'a list" where
  "take_idxs a idxs =
     (if list_all (\<lambda>i. i < length a) idxs then Inr (map (\<lambda>i. a ! i) idxs)
      else Inl IndexError)"

text \<open>
  \<^verbatim>\<open>np.linspace(start, stop, num)\<close> with the end point included: \<open>num\<close> samples
  \<open>start + i * step\<close> with \<open>step = (stop - start) / (num - 1)\<close>, the last one set to
  \<open>stop\<close> itself.
\<close>

definition linspace :: "real \<Rightarrow> real \<Rightarrow> nat \<Rightarrow> real list" where
  "linspace start stop num =
     (let step = (stop - start) / real (num - 1);
          y = map (\<lambda>i. start + real i * step) [0..<num]
      in if 1 < num then y[num - 1 := stop] else y)"

text \<open>
  \<^verbatim>\<open>np.median\<close> of a non-empty array: the middle element of the sorted array, the mean
  of the two middle ones for an even length. (On an empty array numpy answers
  \<^verbatim>\<open>nan\<close>; the only call is guarded by a length test.)
\<close>

definition median :: "real list \<Rightarrow> real" where
  "median a =
     (let s = sort a; n = length a
      in if n mod 2 = 1 then s ! (n div 2)
         else (s ! (n div 2 - 1) + s ! (n div 2)) / 2)"

subsection \<open>The nearest-beat matcher\<close>

definition nearest_beat_errors :: "real list \<Rightarrow> real list \<Rightarrow> error + (real list \<times> real list)" where
  "nearest_beat_errors event_times beat_times =
     (if length beat_times = 0 \<or> length event_times = 0 then Inr ([], [])
      else
        let (dists, idxs) = query beat_times event_times
        in case take_idxs beat_times idxs of
             Inl e \<Rightarrow> Inl e
           | Inr nearest \<Rightarrow>
               let errors_ms = map (\<lambda>(t, b). (t - b) * 1000) (zip event_times nearest)
               in Inr (nearest, errors_ms))"

subsection \<open>The lag search\<close>

text \<open>A score is a median or \<^verbatim>\<open>np.inf\<close>; \<open>score_less\<close> is \<^verbatim>\<open><\<close> on scores.\<close>

datatype score = Finite real | Infinity

fun score_less :: "score \<Rightarrow> score \<Rightarrow> bool" where
  "score_less (Finite a) (Finite b) = (a < b)"
| "score_less (Finite a) Infinity = True"
| "score_less Infinity b = False"

text \<open>The body of the loop up to the comparison: the score of one candidate lag.\<close>

definition lag_score :: "real list \<Rightarrow> real list \<Rightarrow> real \<Rightarrow> error + score" where
  "lag_score event_times beat_times lag =
     (let shifted = map (\<lambda>t. t + lag / 1000) event_times
      in case nearest_beat_errors shifted beat_times of
           Inl e \<Rightarrow> Inl e
         | Inr (nearest, errs) \<Rightarrow>
             Inr (if length errs \<noteq> 0 then Finite (median (map abs errs)) else Infinity))"

text \<open>The loop over the candidate lags; the state is \<open>(best_lag, best_score)\<close>.\<close>

fun lag_loop :: "real list \<Rightarrow> real list \<Rightarrow> real list \<Rightarrow> real \<times> score \<Rightarrow> error + (real \<times> score)" where
  "lag_loop event_times beat_times [] st = Inr st"
| "lag_loop event_times beat_times (lag # lags) (best_lag, best_score) =
     (case lag_score event_times beat_times lag of
        Inl e \<Rightarrow> Inl e
      | Inr sc \<Rightarrow>
          if score_less sc best_score
          then lag_loop event_times beat_times lags (lag, sc)
          else lag_loop event_times beat_times lags (best_lag, best_score))"

definition estimate_best_lag :: "real list \<Rightarrow> real list \<Rightarrow> real \<Rightarrow> error + real" where
  "estimate_best_lag event_times beat_times search_ms =
     (if length event_times = 0 \<or> length beat_times = 0 then Inr 0
      else
        let lags = linspace (- search_ms) search_ms 121
        in case lag_loop event_times beat_times lags (0, Infinity) of
             Inl e \<Rightarrow> Inl e
           | Inr (best_lag, best_score) \<Rightarrow> Inr best_lag)"

subsection \<open>The lag search with the rounding of each operation written out\<close>

text \<open>
  The program computes in doubles: every arithmetic operation yields the exact result
  rounded to a double. Two candidates whose exact scores are equal can get different
  computed scores, and then the exact scores no longer tell which candidate the loop
  keeps. The definitions below are the same code with the rounding made explicit:
  \<open>rnd\<close> maps the exact result of an operation to the double that the operation
  returns, and \<open>nn\<close> is the index that the tree query reports for a point (which of two
  competing beats that is depends on the library's own arithmetic). With \<open>rnd\<close> the
  identity and \<open>nn\<close> the scan \<open>nearest_index\<close> they are the definitions above.

  In \<^verbatim>\<open>np.linspace\<close> the difference \<open>stop - start\<close> and the step are rounded, then each
  product and each sum; a step that rounds to 0 makes numpy divide the index first and
  multiply by the difference afterwards. \<^verbatim>\<open>np.median\<close> of an even number of values is
  \<^verbatim>\<open>np.mean\<close> of the two middle ones, a rounded sum divided by 2.
\<close>

definition linspace_fl :: "(real \<Rightarrow> real) \<Rightarrow> real \<Rightarrow> real \<Rightarrow> nat \<Rightarrow> real list" where
  "linspace_fl rnd start stop num =
     (let dv = real (num - 1);
          delta = rnd (stop - start);
          y = (if 0 < num - 1 then
                 (let step = rnd (delta / dv)
                  in if step = 0
                     then map (\<lambda>i. rnd (rnd (rnd (real i / dv) * delta) + start)) [0..<num]
                     else map (\<lambda>i. rnd (rnd (real i * step) + start)) [0..<num])
               else map (\<lambda>i. rnd (rnd (real i * delta) + start)) [0..<num])
      in if 1 < num then y[num - 1 := stop] else y)"

definition median_fl :: "(real \<Rightarrow> real) \<Rightarrow> real list \<Rightarrow> real" where
  "median_fl rnd a =
     (let s = sort a; n = length a
      in if n mod 2 = 1 then s ! (n div 2)
         else rnd (rnd (s ! (n div 2 - 1) + s ! (n div 2)) / 2))"

definition nearest_beat_errors_fl ::
    "(real \<Rightarrow> real) \<Rightarrow> (real list \<Rightarrow> real \<Rightarrow> nat) \<Rightarrow> real list \<Rightarrow> real list
      \<Rightarrow> error + (real list \<times> real list)" where
  "nearest_beat_errors_fl rnd nn event_times beat_times =
     (if length beat_times = 0 \<or> length event_times = 0 then Inr ([], [])
      else
        let idxs = map (nn beat_times) event_times
        in case take_idxs beat_times idxs of
             Inl e \<Rightarrow> Inl e
           | Inr nearest \<Rightarrow>
               let errors_ms = map (\<lambda>(t, b). rnd (rnd (t - b) * 1000)) (zip event_times nearest)
               in Inr (nearest, errors_ms))"

definition lag_score_fl ::
    "(real \<Rightarrow> real) \<Rightarrow> (real list \<Rightarrow> real \<Rightarrow> nat) \<Rightarrow> real list \<Rightarrow> real list \<Rightarrow> real
      \<Rightarrow> error + score" where
  "lag_score_fl rnd nn event_times beat_times lag =
     (let shifted = map (\<lambda>t. rnd (t + rnd (lag / 1000))) event_times
      in case nearest_beat_errors_fl rnd nn shifted beat_times of
           Inl e \<Rightarrow> Inl e
         | Inr (nearest, errs) \<Rightarrow>
             Inr (if length errs \<noteq> 0 then Finite (median_fl rnd (map abs errs)) else Infinity))"

text \<open>
  The loop itself, for any way of scoring a candidate: it compares the scores as they
  were computed and replaces the best only by a strictly smaller one.
\<close>

fun lag_scan :: "(real \<Rightarrow> error + score) \<Rightarrow> real list \<Rightarrow> real \<times> score \<Rightarrow> error + (real \<times> score)" where
  "lag_scan score_of [] st = Inr st"
| "lag_scan score_of (lag # lags) (best_lag, best_score) =
     (case score_of lag of
        Inl e \<Rightarrow> Inl e
      | Inr sc \<Rightarrow>
          if score_less sc best_score
          then lag_scan score_of lags (lag, sc)
          else lag_scan score_of lags (best_lag, best_score))"

definition estimate_best_lag_fl ::
    "(real \<Rightarrow> real) \<Rightarrow> (real list \<Rightarrow> real \<Rightarrow> nat) \<Rightarrow> real list \<Rightarrow> real list \<Rightarrow> real
      \<Rightarrow> error + real" where
  "estimate_best_lag_fl rnd nn event_times beat_times search_ms =
     (if length event_times = 0 \<or> length beat_times = 0 then Inr 0
      else
        let lags = linspace_fl rnd (- search_ms) search_ms 121
        in case lag_scan (lag_score_fl rnd nn event_times beat_times) lags (0, Infinity) of
             Inl e \<Rightarrow> Inl e
           | Inr (best_lag, best_score) \<Rightarrow> Inr best_lag)"

subsection \<open>Writing the beats file\<close>

text \<open>
  \<^verbatim>\<open>f"{x:.4f}"\<close> and \<^verbatim>\<open>f"{x:.6f}"\<close>: fixed-point notation with \<open>d > 0\<close> digits after the
  point, the value rounded to the nearest multiple of \<open>10 ^ - d\<close>, a tie going to the
  even one, and a minus sign for a negative number.
\<close>

definition digit_char :: "nat \<Rightarrow> char" where
  "digit_char k = char_of (48 + k)"

fun dec_digits :: "nat \<Rightarrow> string" where
  "dec_digits n =
     (if n < 10 then [digit_char n] else dec_digits (n div 10) @ [digit_char (n mod 10)])"

definition zero_pad :: "nat \<Rightarrow> string \<Rightarrow> string" where
  "zero_pad w s = replicate (w - length s) (CHR ''0'') @ s"

definition round_half_even :: "real \<Rightarrow> int" where
  "round_half_even x =
     (let f = \<lfloor>x\<rfloor>; r = x - of_int f
      in if r < 1 / 2 then f else if 1 / 2 < r then f + 1 else if even f then f else f + 1)"

definition format_fixed :: "nat \<Rightarrow> real \<Rightarrow> string" where
  "format_fixed d x =
     (let n = nat (round_half_even (\<bar>x\<bar> * 10 ^ d))
      in (if x < 0 then [CHR ''-''] else []) @ dec_digits (n div 10 ^ d) @ [CHR ''.'']
           @ zero_pad d (dec_digits (n mod 10 ^ d)))"

text \<open>
  \<^verbatim>\<open>csv.writer(f).writerow(cells)\<close> with the default dialect: the cells joined by commas
  and ended by CR LF; a cell holding a comma, a double quote, CR or LF is put in double
  quotes, its double quotes doubled.
\<close>

definition crlf :: string where
  "crlf = [CHR 0x0D, CHR 0x0A]"

definition needs_quotes :: "char \<Rightarrow> bool" where
  "needs_quotes c =
     (c = CHR '','' \<or> c = CHR 0x22 \<or> c = CHR 0x0D \<or> c = CHR 0x0A)"

definition csv_field :: "string \<Rightarrow> string" where
  "csv_field s =
     (if list_ex needs_quotes s
      then [CHR 0x22]
           @ concat (map (\<lambda>c. if c = CHR 0x22 then [c, c] else [c]) s)
           @ [CHR 0x22]
      else s)"

fun join_fields :: "string list \<Rightarrow> string" where
  "join_fields [] = []"
| "join_fields [c] = c"
| "join_fields (c # cs) = c @ [CHR '',''] @ join_fields cs"

definition writerow :: "string list \<Rightarrow> string" where
  "writerow cells = join_fields (map csv_field cells) @ crlf"

text \<open>
  The rows that \<^verbatim>\<open>write_beats_csv\<close> hands to the writer, in order, and the function
  itself. The file system is a map from paths to contents; the path is taken as already
  normal, so that \<^verbatim>\<open>str(out_p)\<close> is \<open>out_path\<close>, and directories are not modelled.
\<close>

definition beats_rows :: "real \<Rightarrow> real list \<Rightarrow> string list list" where
  "beats_rows tempo_bpm beat_times =
     [''tempo_bpm'', format_fixed 4 tempo_bpm]
     # [''beat_time_s'']
     # map (\<lambda>t. [format_fixed 6 t]) beat_times"

definition write_beats_csv ::
    "(string \<rightharpoonup> string) \<Rightarrow> string \<Rightarrow> real \<Rightarrow> real list \<Rightarrow> (string \<rightharpoonup> string) \<times> string" where
  "write_beats_csv fs out_path tempo_bpm beat_times =
     (fs(out_path \<mapsto> concat (map writerow (beats_rows tempo_bpm beat_times))), out_path)"

subsection \<open>Reading a formatted number back\<close>

text \<open>
  What a reader of the file sees in a cell: the digits after the point, and the number
  that the cell denotes.
\<close>

definition digit_val :: "char \<Rightarrow> nat" where
  "digit_val c = of_char c - 48"

definition read_nat :: "string \<Rightarrow> nat" where
  "read_nat s = foldl (\<lambda>a c. 10 * a + digit_val c) 0 s"

definition is_digit :: "char \<Rightarrow> bool" where
  "is_digit c = (48 \<le> (of_char c :: nat) \<and> (of_char c :: nat) \<le> 57)"

definition unsigned :: "string \<Rightarrow> string" where
  "unsigned s = (case s of [] \<Rightarrow> [] | c # cs \<Rightarrow> if c = CHR ''-'' then cs else s)"

definition integer_digits :: "string \<Rightarrow> string" where
  "integer_digits s = takeWhile (\<lambda>c. c \<noteq> CHR ''.'') (unsigned s)"

definition fraction_digits :: "string \<Rightarrow> string" where
  "fraction_digits s = drop 1 (dropWhile (\<lambda>c. c \<noteq> CHR ''.'') (unsigned s))"

definition decimal_value :: "string \<Rightarrow> real" where
  "decimal_value s =
     (let v = real (read_nat (integer_digits s))
              + real (read_nat (fraction_digits s)) / 10 ^ length (fraction_digits s)
      in case s of [] \<Rightarrow> v | c # cs \<Rightarrow> if c = CHR ''-'' then - v else v)"

section \<open>Properties of the library operations\<close>

lemma nearest_index_less: "data \<noteq> [] \<Longrightarrow> nearest_index data x < length data"
  by (induction data x rule: nearest_index.induct) (auto simp: Let_def)


lemma take_idxs_query:
  assumes "data \<noteq> []"
  shows "take_idxs data (snd (query data xs)) = Inr (map (\<lambda>x. data ! nearest_index data x) xs)"
proof -
  have "list_all (\<lambda>i. i < length data) (map (nearest_index data) xs)"
    using assms by (simp add: list_all_iff nearest_index_less)
  then show ?thesis
    by (simp add: take_idxs_def query_def Let_def comp_def)
qed

lemma nearest_beat_errors_eq:
  assumes "beat_times \<noteq> []" "event_times \<noteq> []"
  shows "nearest_beat_errors event_times beat_times =
    Inr (map (\<lambda>t. beat_times ! nearest_index beat_times t) event_times,
         map (\<lambda>t. (t - beat_times ! nearest_index beat_times t) * 1000) event_times)"
proof -
  have z: "map (\<lambda>(t, b). (t - b) * 1000)
             (zip event_times (map (\<lambda>t. beat_times ! nearest_index beat_times t) event_times))
         = map (\<lambda>t. (t - beat_times ! nearest_index beat_times t) * 1000) event_times"
    by (induction event_times) auto
  obtain d i where q: "query beat_times event_times = (d, i)"
    by (cases "query beat_times event_times")
  with take_idxs_query [OF assms(1), of event_times]
  have "take_idxs beat_times i = Inr (map (\<lambda>t. beat_times ! nearest_index beat_times t) event_times)"
    by simp
  with assms q z show ?thesis
    by (simp add: nearest_beat_errors_def)
qed

section \<open>Properties of the lag loop\<close>

lemma linspace_length: "length (linspace a b n) = n"
  by (simp add: linspace_def Let_def)

lemma linspace_nth:
  assumes "1 < n" "k < n"
  shows "linspace a b n ! k = a + real k * ((b - a) / real (n - 1))"
proof (cases "k = n - 1")
  case True
  with assms show ?thesis
    by (simp add: linspace_def Let_def)
next
  case False
  with assms show ?thesis
    by (simp add: linspace_def Let_def)
qed

lemma lag_score_finite:
  assumes "event_times \<noteq> []" "beat_times \<noteq> []"
  shows "\<exists>nearest errs.
     nearest_beat_errors (map (\<lambda>t. t + lag / 1000) event_times) beat_times = Inr (nearest, errs)
     \<and> lag_score event_times beat_times lag = Inr (Finite (median (map abs errs)))"
proof -
  from assms(1) have ne: "map (\<lambda>t. t + lag / 1000) event_times \<noteq> []" by simp
  show ?thesis
    using assms(1) by (simp add: lag_score_def nearest_beat_errors_eq [OF assms(2) ne])
qed

lemma lag_loop_finite:
  assumes sc: "\<And>lag. lag_score ev bt lag = Inr (Finite (f lag))"
  shows "\<exists>bl' b'. lag_loop ev bt lags (bl, Finite b) = Inr (bl', Finite b') \<and>
     ((bl' = bl \<and> b' = b \<and> (\<forall>j<length lags. b \<le> f (lags ! j)))
      \<or> (\<exists>k<length lags. bl' = lags ! k \<and> b' = f (lags ! k) \<and> f (lags ! k) < b
            \<and> (\<forall>j<length lags. f (lags ! k) \<le> f (lags ! j))
            \<and> (\<forall>j<k. f (lags ! k) < f (lags ! j))))"
proof (induction lags arbitrary: bl b)
  case Nil
  then show ?case by simp
next
  case (Cons x xs)
  show ?case
  proof (cases "f x < b")
    case True
    then have step: "lag_loop ev bt (x # xs) (bl, Finite b) = lag_loop ev bt xs (x, Finite (f x))"
      by (simp add: sc)
    from Cons.IH [of x "f x"] obtain bl' b' where
      r: "lag_loop ev bt xs (x, Finite (f x)) = Inr (bl', Finite b')" and
      d: "(bl' = x \<and> b' = f x \<and> (\<forall>j<length xs. f x \<le> f (xs ! j)))
          \<or> (\<exists>k<length xs. bl' = xs ! k \<and> b' = f (xs ! k) \<and> f (xs ! k) < f x
            \<and> (\<forall>j<length xs. f (xs ! k) \<le> f (xs ! j))
            \<and> (\<forall>j<k. f (xs ! k) < f (xs ! j)))" by blast
    from d show ?thesis
    proof
      assume a: "bl' = x \<and> b' = f x \<and> (\<forall>j<length xs. f x \<le> f (xs ! j))"
      have "\<forall>j<length (x # xs). f ((x # xs) ! 0) \<le> f ((x # xs) ! j)"
        using a by (auto simp: nth_Cons')
      with a True have "\<exists>k<length (x # xs). bl' = (x # xs) ! k \<and> b' = f ((x # xs) ! k)
            \<and> f ((x # xs) ! k) < b
            \<and> (\<forall>j<length (x # xs). f ((x # xs) ! k) \<le> f ((x # xs) ! j))
            \<and> (\<forall>j<k. f ((x # xs) ! k) < f ((x # xs) ! j))"
        by (intro exI [of _ 0]) simp
      with step r show ?thesis by simp
    next
      assume "\<exists>k<length xs. bl' = xs ! k \<and> b' = f (xs ! k) \<and> f (xs ! k) < f x
            \<and> (\<forall>j<length xs. f (xs ! k) \<le> f (xs ! j))
            \<and> (\<forall>j<k. f (xs ! k) < f (xs ! j))"
      then obtain k where k: "k < length xs" "bl' = xs ! k" "b' = f (xs ! k)" "f (xs ! k) < f x"
        "\<forall>j<length xs. f (xs ! k) \<le> f (xs ! j)" "\<forall>j<k. f (xs ! k) < f (xs ! j)" by blast
      have 1: "\<forall>j<length (x # xs). f ((x # xs) ! Suc k) \<le> f ((x # xs) ! j)"
        using k by (auto simp: nth_Cons' less_Suc_eq_0_disj)
      have 2: "\<forall>j<Suc k. f ((x # xs) ! Suc k) < f ((x # xs) ! j)"
        using k by (auto simp: nth_Cons' less_Suc_eq_0_disj)
      from k True have 3: "f ((x # xs) ! Suc k) < b" by simp
      from k 1 2 3 have "\<exists>k<length (x # xs). bl' = (x # xs) ! k \<and> b' = f ((x # xs) ! k)
            \<and> f ((x # xs) ! k) < b
            \<and> (\<forall>j<length (x # xs). f ((x # xs) ! k) \<le> f ((x # xs) ! j))
            \<and> (\<forall>j<k. f ((x # xs) ! k) < f ((x # xs) ! j))"
        by (intro exI [of _ "Suc k"]) simp
      with step r show ?thesis by simp
    qed
  next
    case False
    then have step: "lag_loop ev bt (x # xs) (bl, Finite b) = lag_loop ev bt xs (bl, Finite b)"
      by (simp add: sc)
    from Cons.IH [of bl b] obtain bl' b' where
      r: "lag_loop ev bt xs (bl, Finite b) = Inr (bl', Finite b')" and
      d: "(bl' = bl \<and> b' = b \<and> (\<forall>j<length xs. b \<le> f (xs ! j)))
          \<or> (\<exists>k<length xs. bl' = xs ! k \<and> b' = f (xs ! k) \<and> f (xs ! k) < b
            \<and> (\<forall>j<length xs. f (xs ! k) \<le> f (xs ! j))
            \<and> (\<forall>j<k. f (xs ! k) < f (xs ! j)))" by blast
    from d show ?thesis
    proof
      assume a: "bl' = bl \<and> b' = b \<and> (\<forall>j<length xs. b \<le> f (xs ! j))"
      with False have "\<forall>j<length (x # xs). b \<le> f ((x # xs) ! j)"
        by (auto simp: nth_Cons' less_Suc_eq_0_disj)
      with a step r show ?thesis by simp
    next
      assume "\<exists>k<length xs. bl' = xs ! k \<and> b' = f (xs ! k) \<and> f (xs ! k) < b
            \<and> (\<forall>j<length xs. f (xs ! k) \<le> f (xs ! j))
            \<and> (\<forall>j<k. f (xs ! k) < f (xs ! j))"
      then obtain k where k: "k < length xs" "bl' = xs ! k" "b' = f (xs ! k)" "f (xs ! k) < b"
        "\<forall>j<length xs. f (xs ! k) \<le> f (xs ! j)" "\<forall>j<k. f (xs ! k) < f (xs ! j)" by blast
      have 1: "\<forall>j<length (x # xs). f ((x # xs) ! Suc k) \<le> f ((x # xs) ! j)"
        using k False by (auto simp: nth_Cons' less_Suc_eq_0_disj)
      have 2: "\<forall>j<Suc k. f ((x # xs) ! Suc k) < f ((x # xs) ! j)"
        using k False by (auto simp: nth_Cons' less_Suc_eq_0_disj)
      from k have 3: "f ((x # xs) ! Suc k) < b" by simp
      from k 1 2 3 have "\<exists>k<length (x # xs). bl' = (x # xs) ! k \<and> b' = f ((x # xs) ! k)
            \<and> f ((x # xs) ! k) < b
            \<and> (\<forall>j<length (x # xs). f ((x # xs) ! k) \<le> f ((x # xs) ! j))
            \<and> (\<forall>j<k. f ((x # xs) ! k) < f ((x # xs) ! j))"
        by (intro exI [of _ "Suc k"]) simp
      with step r show ?thesis by simp
    qed
  qed
qed

lemma lag_loop_first_min:
  assumes sc: "\<And>lag. lag_score ev bt lag = Inr (Finite (f lag))" and ne: "lags \<noteq> []"
  shows "\<exists>k<length lags.
      lag_loop ev bt lags (bl, Infinity) = Inr (lags ! k, Finite (f (lags ! k)))
      \<and> (\<forall>j<length lags. f (lags ! k) \<le> f (lags ! j))
      \<and> (\<forall>j<k. f (lags ! k) < f (lags ! j))"
proof -
  from ne obtain x xs where l: "lags = x # xs" by (cases lags) auto
  have step: "lag_loop ev bt lags (bl, Infinity) = lag_loop ev bt xs (x, Finite (f x))"
    by (simp add: l sc)
  from lag_loop_finite [of ev bt f xs x "f x", OF sc] obtain bl' b' where
    r: "lag_loop ev bt xs (x, Finite (f x)) = Inr (bl', Finite b')" and
    d: "(bl' = x \<and> b' = f x \<and> (\<forall>j<length xs. f x \<le> f (xs ! j)))
        \<or> (\<exists>k<length xs. bl' = xs ! k \<and> b' = f (xs ! k) \<and> f (xs ! k) < f x
          \<and> (\<forall>j<length xs. f (xs ! k) \<le> f (xs ! j))
          \<and> (\<forall>j<k. f (xs ! k) < f (xs ! j)))" by blast
  from d show ?thesis
  proof
    assume a: "bl' = x \<and> b' = f x \<and> (\<forall>j<length xs. f x \<le> f (xs ! j))"
    have "\<forall>j<length lags. f (lags ! 0) \<le> f (lags ! j)"
      using a l by (auto simp: nth_Cons')
    with a step r l show ?thesis
      by (intro exI [of _ 0]) simp
  next
    assume "\<exists>k<length xs. bl' = xs ! k \<and> b' = f (xs ! k) \<and> f (xs ! k) < f x
          \<and> (\<forall>j<length xs. f (xs ! k) \<le> f (xs ! j))
          \<and> (\<forall>j<k. f (xs ! k) < f (xs ! j))"
    then obtain k where k: "k < length xs" "bl' = xs ! k" "b' = f (xs ! k)" "f (xs ! k) < f x"
      "\<forall>j<length xs. f (xs ! k) \<le> f (xs ! j)" "\<forall>j<k. f (xs ! k) < f (xs ! j)" by blast
    have 1: "\<forall>j<length lags. f (lags ! Suc k) \<le> f (lags ! j)"
      using k l by (auto simp: nth_Cons' less_Suc_eq_0_disj)
    have 2: "\<forall>j<Suc k. f (lags ! Suc k) < f (lags ! j)"
      using k l by (auto simp: nth_Cons' less_Suc_eq_0_disj)
    from k 1 2 step r l show ?thesis
      by (intro exI [of _ "Suc k"]) simp
  qed
qed

lemma grid_nth:
  assumes "k < 121"
  shows "linspace (- s) s 121 ! k = - s + real k * (2 * s / 120)"
  using linspace_nth [of 121 k "- s" s] assms by simp

lemma grid_abs: 
  assumes "k < 121"
  shows "\<bar>- s + real k * (2 * s / 120)\<bar> \<le> \<bar>s\<bar>"
proof -
  have e: "- s + real k * (2 * s / 120) = s * (real k / 60 - 1)"
    by (simp add: algebra_simps)
  from assms have "real k \<le> 120" by simp
  then have "\<bar>real k / 60 - 1\<bar> \<le> 1" by (simp add: abs_le_iff)
  then have "\<bar>s\<bar> * \<bar>real k / 60 - 1\<bar> \<le> \<bar>s\<bar> * 1"
    by (intro mult_left_mono) simp_all
  then have "\<bar>s * (real k / 60 - 1)\<bar> \<le> \<bar>s\<bar>"
    by (simp only: abs_mult mult_1_right)
  then show ?thesis by (simp only: e)
qed

lemma estimate_best_lag_first_min:
  assumes "event_times \<noteq> []" "beat_times \<noteq> []"
  shows "\<exists>k<121. estimate_best_lag event_times beat_times s = Inr (linspace (- s) s 121 ! k)
     \<and> (\<exists>sk. lag_score event_times beat_times (linspace (- s) s 121 ! k) = Inr (Finite sk)
          \<and> (\<forall>j<121. \<exists>sj. lag_score event_times beat_times (linspace (- s) s 121 ! j) = Inr (Finite sj)
                \<and> sk \<le> sj \<and> (j < k \<longrightarrow> sk < sj)))"
proof -
  let ?lags = "linspace (- s) s 121"
  from lag_score_finite [OF assms]
  have "\<forall>lag. \<exists>m. lag_score event_times beat_times lag = Inr (Finite m)" by blast
  then obtain f where f: "\<And>lag. lag_score event_times beat_times lag = Inr (Finite (f lag))"
    by metis
  have len: "length ?lags = 121" by (rule linspace_length)
  then have ne: "?lags \<noteq> []" by auto
  from lag_loop_first_min [of event_times beat_times f ?lags 0, OF f ne] len
  obtain k where k: "k < 121"
    "lag_loop event_times beat_times ?lags (0, Infinity) = Inr (?lags ! k, Finite (f (?lags ! k)))"
    "\<forall>j<121. f (?lags ! k) \<le> f (?lags ! j)" "\<forall>j<k. f (?lags ! k) < f (?lags ! j)"
    by auto
  from assms k(2) have r: "estimate_best_lag event_times beat_times s = Inr (?lags ! k)"
    by (simp add: estimate_best_lag_def)
  from k(3,4) have "\<forall>j<121. \<exists>sj. lag_score event_times beat_times (?lags ! j) = Inr (Finite sj)
                \<and> f (?lags ! k) \<le> sj \<and> (j < k \<longrightarrow> f (?lags ! k) < sj)"
    by (simp add: f)
  with k(1) r f [of "?lags ! k"] show ?thesis by blast
qed

lemma single_score:
  "lag_score [21 / 20] [1] lag = Inr (Finite \<bar>50 + lag\<bar>)"
proof -
  have "(1 / 20 + lag / 1000) * 1000 = 50 + lag" by simp
  then show ?thesis
    by (simp add: lag_score_def nearest_beat_errors_eq median_def algebra_simps)
qed

section \<open>The loop over computed scores\<close>

lemma lag_scan_finite:
  assumes sc: "\<And>lag. score_of lag = Inr (Finite (f lag))"
  shows "\<exists>bl' b'. lag_scan score_of lags (bl, Finite b) = Inr (bl', Finite b') \<and>
     ((bl' = bl \<and> b' = b \<and> (\<forall>j<length lags. b \<le> f (lags ! j)))
      \<or> (\<exists>k<length lags. bl' = lags ! k \<and> b' = f (lags ! k) \<and> f (lags ! k) < b
            \<and> (\<forall>j<length lags. f (lags ! k) \<le> f (lags ! j))
            \<and> (\<forall>j<k. f (lags ! k) < f (lags ! j))))"
proof (induction lags arbitrary: bl b)
  case Nil
  then show ?case by simp
next
  case (Cons x xs)
  show ?case
  proof (cases "f x < b")
    case True
    then have step: "lag_scan score_of (x # xs) (bl, Finite b) = lag_scan score_of xs (x, Finite (f x))"
      by (simp add: sc)
    from Cons.IH [of x "f x"] obtain bl' b' where
      r: "lag_scan score_of xs (x, Finite (f x)) = Inr (bl', Finite b')" and
      d: "(bl' = x \<and> b' = f x \<and> (\<forall>j<length xs. f x \<le> f (xs ! j)))
          \<or> (\<exists>k<length xs. bl' = xs ! k \<and> b' = f (xs ! k) \<and> f (xs ! k) < f x
            \<and> (\<forall>j<length xs. f (xs ! k) \<le> f (xs ! j))
            \<and> (\<forall>j<k. f (xs ! k) < f (xs ! j)))" by blast
    from d show ?thesis
    proof
      assume a: "bl' = x \<and> b' = f x \<and> (\<forall>j<length xs. f x \<le> f (xs ! j))"
      have "\<forall>j<length (x # xs). f ((x # xs) ! 0) \<le> f ((x # xs) ! j)"
        using a by (auto simp: nth_Cons')
      with a True have "\<exists>k<length (x # xs). bl' = (x # xs) ! k \<and> b' = f ((x # xs) ! k)
            \<and> f ((x # xs) ! k) < b
            \<and> (\<forall>j<length (x # xs). f ((x # xs) ! k) \<le> f ((x # xs) ! j))
            \<and> (\<forall>j<k. f ((x # xs) ! k) < f ((x # xs) ! j))"
        by (intro exI [of _ 0]) simp
      with step r show ?thesis by simp
    next
      assume "\<exists>k<length xs. bl' = xs ! k \<and> b' = f (xs ! k) \<and> f (xs ! k) < f x
            \<and> (\<forall>j<length xs. f (xs ! k) \<le> f (xs ! j))
            \<and> (\<forall>j<k. f (xs ! k) < f (xs ! j))"
      then obtain k where k: "k < length xs" "bl' = xs ! k" "b' = f (xs ! k)" "f (xs ! k) < f x"
        "\<forall>j<length xs. f (xs ! k) \<le> f (xs ! j)" "\<forall>j<k. f (xs ! k) < f (xs ! j)" by blast
      have 1: "\<forall>j<length (x # xs). f ((x # xs) ! Suc k) \<le> f ((x # xs) ! j)"
        using k by (auto simp: nth_Cons' less_Suc_eq_0_disj)
      have 2: "\<forall>j<Suc k. f ((x # xs) ! Suc k) < f ((x # xs) ! j)"
        using k by (auto simp: nth_Cons' less_Suc_eq_0_disj)
      from k True have 3: "f ((x # xs) ! Suc k) < b" by simp
      from k 1 2 3 have "\<exists>k<length (x # xs). bl' = (x # xs) ! k \<and> b' = f ((x # xs) ! k)
            \<and> f ((x # xs) ! k) < b
            \<and> (\<forall>j<length (x # xs). f ((x # xs) ! k) \<le> f ((x # xs) ! j))
            \<and> (\<forall>j<k. f ((x # xs) ! k) < f ((x # xs) ! j))"
        by (intro exI [of _ "Suc k"]) simp
      with step r show ?thesis by simp
    qed
  next
    case False
    then have step: "lag_scan score_of (x # xs) (bl, Finite b) = lag_scan score_of xs (bl, Finite b)"
      by (simp add: sc)
    from Cons.IH [of bl b] obtain bl' b' where
      r: "lag_scan score_of xs (bl, Finite b) = Inr (bl', Finite b')" and
      d: "(bl' = bl \<and> b' = b \<and> (\<forall>j<length xs. b \<le> f (xs ! j)))
          \<or> (\<exists>k<length xs. bl' = xs ! k \<and> b' = f (xs ! k) \<and> f (xs ! k) < b
            \<and> (\<forall>j<length xs. f (xs ! k) \<le> f (xs ! j))
            \<and> (\<forall>j<k. f (xs ! k) < f (xs ! j)))" by blast
    from d show ?thesis
    proof
      assume a: "bl' = bl \<and> b' = b \<and> (\<forall>j<length xs. b \<le> f (xs ! j))"
      with False have "\<forall>j<length (x # xs). b \<le> f ((x # xs) ! j)"
        by (auto simp: nth_Cons' less_Suc_eq_0_disj)
      with a step r show ?thesis by simp
    next
      assume "\<exists>k<length xs. bl' = xs ! k \<and> b' = f (xs ! k) \<and> f (xs ! k) < b
            \<and> (\<forall>j<length xs. f (xs ! k) \<le> f (xs ! j))
            \<and> (\<forall>j<k. f (xs ! k) < f (xs ! j))"
      then obtain k where k: "k < length xs" "bl' = xs ! k" "b' = f (xs ! k)" "f (xs ! k) < b"
        "\<forall>j<length xs. f (xs ! k) \<le> f (xs ! j)" "\<forall>j<k. f (xs ! k) < f (xs ! j)" by blast
      have 1: "\<forall>j<length (x # xs). f ((x # xs) ! Suc k) \<le> f ((x # xs) ! j)"
        using k False by (auto simp: nth_Cons' less_Suc_eq_0_disj)
      have 2: "\<forall>j<Suc k. f ((x # xs) ! Suc k) < f ((x # xs) ! j)"
        using k False by (auto simp: nth_Cons' less_Suc_eq_0_disj)
      from k have 3: "f ((x # xs) ! Suc k) < b" by simp
      from k 1 2 3 have "\<exists>k<length (x # xs). bl' = (x # xs) ! k \<and> b' = f ((x # xs) ! k)
            \<and> f ((x # xs) ! k) < b
            \<and> (\<forall>j<length (x # xs). f ((x # xs) ! k) \<le> f ((x # xs) ! j))
            \<and> (\<forall>j<k. f ((x # xs) ! k) < f ((x # xs) ! j))"
        by (intro exI [of _ "Suc k"]) simp
      with step r show ?thesis by simp
    qed
  qed
qed

lemma lag_scan_first_min:
  assumes sc: "\<And>lag. score_of lag = Inr (Finite (f lag))" and ne: "lags \<noteq> []"
  shows "\<exists>k<length lags.
      lag_scan score_of lags (bl, Infinity) = Inr (lags ! k, Finite (f (lags ! k)))
      \<and> (\<forall>j<length lags. f (lags ! k) \<le> f (lags ! j))
      \<and> (\<forall>j<k. f (lags ! k) < f (lags ! j))"
proof -
  from ne obtain x xs where l: "lags = x # xs" by (cases lags) auto
  have step: "lag_scan score_of lags (bl, Infinity) = lag_scan score_of xs (x, Finite (f x))"
    by (simp add: l sc)
  from lag_scan_finite [of score_of f xs x "f x", OF sc] obtain bl' b' where
    r: "lag_scan score_of xs (x, Finite (f x)) = Inr (bl', Finite b')" and
    d: "(bl' = x \<and> b' = f x \<and> (\<forall>j<length xs. f x \<le> f (xs ! j)))
        \<or> (\<exists>k<length xs. bl' = xs ! k \<and> b' = f (xs ! k) \<and> f (xs ! k) < f x
          \<and> (\<forall>j<length xs. f (xs ! k) \<le> f (xs ! j))
          \<and> (\<forall>j<k. f (xs ! k) < f (xs ! j)))" by blast
  from d show ?thesis
  proof
    assume a: "bl' = x \<and> b' = f x \<and> (\<forall>j<length xs. f x \<le> f (xs ! j))"
    have "\<forall>j<length lags. f (lags ! 0) \<le> f (lags ! j)"
      using a l by (auto simp: nth_Cons')
    with a step r l show ?thesis
      by (intro exI [of _ 0]) simp
  next
    assume "\<exists>k<length xs. bl' = xs ! k \<and> b' = f (xs ! k) \<and> f (xs ! k) < f x
          \<and> (\<forall>j<length xs. f (xs ! k) \<le> f (xs ! j))
          \<and> (\<forall>j<k. f (xs ! k) < f (xs ! j))"
    then obtain k where k: "k < length xs" "bl' = xs ! k" "b' = f (xs ! k)" "f (xs ! k) < f x"
      "\<forall>j<length xs. f (xs ! k) \<le> f (xs ! j)" "\<forall>j<k. f (xs ! k) < f (xs ! j)" by blast
    have 1: "\<forall>j<length lags. f (lags ! Suc k) \<le> f (lags ! j)"
      using k l by (auto simp: nth_Cons' less_Suc_eq_0_disj)
    have 2: "\<forall>j<Suc k. f (lags ! Suc k) < f (lags ! j)"
      using k l by (auto simp: nth_Cons' less_Suc_eq_0_disj)
    from k 1 2 step r l show ?thesis
      by (intro exI [of _ "Suc k"]) simp
  qed
qed

lemma nearest_beat_errors_fl_eq:
  assumes "beat_times \<noteq> []" "event_times \<noteq> []" "\<And>x. nn beat_times x < length beat_times"
  shows "nearest_beat_errors_fl rnd nn event_times beat_times =
    Inr (map (\<lambda>t. beat_times ! nn beat_times t) event_times,
         map (\<lambda>t. rnd (rnd (t - beat_times ! nn beat_times t) * 1000)) event_times)"
proof -
  have z: "map (\<lambda>(t, b). rnd (rnd (t - b) * 1000))
             (zip event_times (map (\<lambda>t. beat_times ! nn beat_times t) event_times))
         = map (\<lambda>t. rnd (rnd (t - beat_times ! nn beat_times t) * 1000)) event_times"
    by (induction event_times) auto
  have "list_all (\<lambda>i. i < length beat_times) (map (nn beat_times) event_times)"
    using assms(3) by (simp add: list_all_iff)
  then have "take_idxs beat_times (map (nn beat_times) event_times)
      = Inr (map (\<lambda>t. beat_times ! nn beat_times t) event_times)"
    by (simp add: take_idxs_def comp_def)
  with assms(1,2) z show ?thesis
    by (simp add: nearest_beat_errors_fl_def)
qed

lemma lag_score_fl_finite:
  assumes "event_times \<noteq> []" "beat_times \<noteq> []" "\<And>x. nn beat_times x < length beat_times"
  shows "\<exists>nearest errs.
     nearest_beat_errors_fl rnd nn (map (\<lambda>t. rnd (t + rnd (lag / 1000))) event_times) beat_times
       = Inr (nearest, errs)
     \<and> lag_score_fl rnd nn event_times beat_times lag = Inr (Finite (median_fl rnd (map abs errs)))"
proof -
  from assms(1) have ne: "map (\<lambda>t. rnd (t + rnd (lag / 1000))) event_times \<noteq> []" by simp
  show ?thesis
    using assms(1)
    by (simp add: lag_score_fl_def nearest_beat_errors_fl_eq [where nn = nn and beat_times = beat_times, OF assms(2) ne assms(3)])
qed

lemma linspace_fl_length: "length (linspace_fl rnd a b n) = n"
  by (simp add: linspace_fl_def Let_def)

lemma linspace_fl_last: "1 < n \<Longrightarrow> linspace_fl rnd a b n ! (n - 1) = b"
  by (simp add: linspace_fl_def Let_def)

lemma estimate_best_lag_fl_first_min:
  assumes "event_times \<noteq> []" "beat_times \<noteq> []" "\<And>x. nn beat_times x < length beat_times"
  shows "\<exists>k<121.
       estimate_best_lag_fl rnd nn event_times beat_times s = Inr (linspace_fl rnd (- s) s 121 ! k)
     \<and> (\<exists>sk. lag_score_fl rnd nn event_times beat_times (linspace_fl rnd (- s) s 121 ! k)
               = Inr (Finite sk)
          \<and> (\<forall>j<121. \<exists>sj.
                lag_score_fl rnd nn event_times beat_times (linspace_fl rnd (- s) s 121 ! j)
                  = Inr (Finite sj)
                \<and> sk \<le> sj \<and> (j < k \<longrightarrow> sk < sj)))"
proof -
  let ?lags = "linspace_fl rnd (- s) s 121"
  let ?sc = "lag_score_fl rnd nn event_times beat_times"
  from lag_score_fl_finite [where nn = nn and beat_times = beat_times, OF assms]
  have "\<forall>lag. \<exists>m. ?sc lag = Inr (Finite m)" by blast
  then obtain f where f: "\<And>lag. ?sc lag = Inr (Finite (f lag))"
    by metis
  have len: "length ?lags = 121" by (rule linspace_fl_length)
  then have ne: "?lags \<noteq> []" by auto
  from lag_scan_first_min [of ?sc f ?lags 0, OF f ne] len
  obtain k where k: "k < 121"
    "lag_scan ?sc ?lags (0, Infinity) = Inr (?lags ! k, Finite (f (?lags ! k)))"
    "\<forall>j<121. f (?lags ! k) \<le> f (?lags ! j)" "\<forall>j<k. f (?lags ! k) < f (?lags ! j)"
    by auto
  from assms(1,2) k(2) have r: "estimate_best_lag_fl rnd nn event_times beat_times s = Inr (?lags ! k)"
    by (simp add: estimate_best_lag_fl_def)
  from k(3,4) have "\<forall>j<121. \<exists>sj. ?sc (?lags ! j) = Inr (Finite sj)
                \<and> f (?lags ! k) \<le> sj \<and> (j < k \<longrightarrow> f (?lags ! k) < sj)"
    by (simp add: f)
  with k(1) r f [of "?lags ! k"] show ?thesis by blast
qed

text \<open>With exact arithmetic and the scan as query these are the definitions used elsewhere.\<close>

lemma linspace_fl_exact: "linspace_fl (\<lambda>x. x) a b 121 = linspace a b 121"
proof (rule nth_equalityI)
  show "length (linspace_fl (\<lambda>x. x) a b 121) = length (linspace a b 121)"
    by (simp add: linspace_fl_length linspace_length)
next
  fix i assume "i < length (linspace_fl (\<lambda>x. x) a b 121)"
  then have i: "i < 121" by (simp add: linspace_fl_length)
  show "linspace_fl (\<lambda>x. x) a b 121 ! i = linspace a b 121 ! i"
  proof (cases "i = 120")
    case True
    then show ?thesis
      using linspace_fl_last [of 121 "\<lambda>x. x" a b] linspace_nth [of 121 120 a b]
      by (simp add: field_simps)
  next
    case False
    with i have "linspace_fl (\<lambda>x. x) a b 121 ! i = a + real i * ((b - a) / 120)"
      by (simp add: linspace_fl_def Let_def)
    with i show ?thesis
      using linspace_nth [of 121 i a b] by simp
  qed
qed

lemma median_fl_exact: "median_fl (\<lambda>x. x) a = median a"
  by (simp add: median_fl_def median_def)

lemma nearest_beat_errors_fl_exact:
  "nearest_beat_errors_fl (\<lambda>x. x) nearest_index event_times beat_times
     = nearest_beat_errors event_times beat_times"
  by (simp add: nearest_beat_errors_fl_def nearest_beat_errors_def query_def Let_def)

lemma lag_score_fl_exact:
  "lag_score_fl (\<lambda>x. x) nearest_index event_times beat_times lag
     = lag_score event_times beat_times lag"
  by (simp add: lag_score_fl_def lag_score_def nearest_beat_errors_fl_exact median_fl_exact
      split: sum.splits prod.splits)

lemma lag_scan_exact:
  "lag_scan (lag_score ev bt) lags st = lag_loop ev bt lags st"
proof (induction lags arbitrary: st)
  case Nil
  then show ?case by simp
next
  case (Cons lag lags)
  obtain bl bs where st: "st = (bl, bs)" by (cases st)
  show ?case
    unfolding st by (simp add: Cons.IH split: sum.splits)
qed

lemma estimate_best_lag_fl_exact:
  "estimate_best_lag_fl (\<lambda>x. x) nearest_index event_times beat_times s
     = estimate_best_lag event_times beat_times s"
proof -
  have "lag_score_fl (\<lambda>x. x) nearest_index event_times beat_times = lag_score event_times beat_times"
    by (rule ext) (rule lag_score_fl_exact)
  then show ?thesis
    by (simp add: estimate_best_lag_fl_def estimate_best_lag_def linspace_fl_exact lag_scan_exact)
qed

section \<open>The scenario of four late events\<close>

lemma near1: "19 / 20 \<le> x \<Longrightarrow> x \<le> 23 / 20 \<Longrightarrow> nearest_index [1, 2, 3, 4] x = 0"
  by (simp add: Let_def abs_if)

lemma near2: "39 / 20 \<le> x \<Longrightarrow> x \<le> 43 / 20 \<Longrightarrow> nearest_index [1, 2, 3, 4] x = 1"
  by (simp add: Let_def abs_if)

lemma near3: "59 / 20 \<le> x \<Longrightarrow> x \<le> 63 / 20 \<Longrightarrow> nearest_index [1, 2, 3, 4] x = 2"
  by (simp add: Let_def abs_if)

lemma near4: "79 / 20 \<le> x \<Longrightarrow> x \<le> 83 / 20 \<Longrightarrow> nearest_index [1, 2, 3, 4] x = 3"
  by (simp add: Let_def abs_if)

lemma median4: "median [a, a, a, a] = a"
  by (simp add: median_def)

lemma shifted_match:
  assumes "- 1 / 10 \<le> d" "d \<le> 1 / 10"
  shows "nearest_beat_errors [21 / 20 + d, 41 / 20 + d, 61 / 20 + d, 81 / 20 + d] [1, 2, 3, 4]
      = Inr ([1, 2, 3, 4], [50 + d * 1000, 50 + d * 1000, 50 + d * 1000, 50 + d * 1000])"
proof -
  have ne: "[1, 2, 3, 4] \<noteq> ([] :: real list)"
    "[21 / 20 + d, 41 / 20 + d, 61 / 20 + d, 81 / 20 + d] \<noteq> []" by simp_all
  have i1: "nearest_index [1, 2, 3, 4] (21 / 20 + d) = 0"
    using assms by (intro near1) simp_all
  have i2: "nearest_index [1, 2, 3, 4] (41 / 20 + d) = 1"
    using assms by (intro near2) simp_all
  have i3: "nearest_index [1, 2, 3, 4] (61 / 20 + d) = 2"
    using assms by (intro near3) simp_all
  have i4: "nearest_index [1, 2, 3, 4] (81 / 20 + d) = 3"
    using assms by (intro near4) simp_all
  have e1: "(21 / 20 + d - 1) * 1000 = 50 + d * 1000" by (simp add: algebra_simps)
  have e2: "(41 / 20 + d - 2) * 1000 = 50 + d * 1000" by (simp add: algebra_simps)
  have e3: "(61 / 20 + d - 3) * 1000 = 50 + d * 1000" by (simp add: algebra_simps)
  have e4: "(81 / 20 + d - 4) * 1000 = 50 + d * 1000" by (simp add: algebra_simps)
  have n: "[1, 2, 3, 4 :: real] ! 0 = 1" "[1, 2, 3, 4 :: real] ! 1 = 2"
    "[1, 2, 3, 4 :: real] ! 2 = 3" "[1, 2, 3, 4 :: real] ! 3 = 4" by simp_all
  show ?thesis
    unfolding nearest_beat_errors_eq [OF ne] list.map i1 i2 i3 i4 n e1 e2 e3 e4 ..
qed

lemma late_events_score:
  assumes "- 100 \<le> lag" "lag \<le> 100"
  shows "lag_score [21 / 20, 41 / 20, 61 / 20, 81 / 20] [1, 2, 3, 4] lag = Inr (Finite \<bar>50 + lag\<bar>)"
proof -
  from assms have d: "- 1 / 10 \<le> lag / 1000" "lag / 1000 \<le> 1 / 10" by simp_all
  have e: "50 + lag / 1000 * 1000 = 50 + lag" by simp
  have m: "map (\<lambda>t. t + lag / 1000) [21 / 20, 41 / 20, 61 / 20, 81 / 20]
      = [21 / 20 + lag / 1000, 41 / 20 + lag / 1000, 61 / 20 + lag / 1000, 81 / 20 + lag / 1000]"
    by simp
  have "lag_score [21 / 20, 41 / 20, 61 / 20, 81 / 20] [1, 2, 3, 4] lag
      = Inr (Finite (median (map abs [50 + lag, 50 + lag, 50 + lag, 50 + lag])))"
    unfolding lag_score_def Let_def m shifted_match [OF d] e by simp
  also have "median (map abs [50 + lag, 50 + lag, 50 + lag, 50 + lag]) = \<bar>50 + lag\<bar>"
    unfolding list.map by (rule median4)
  finally show ?thesis .
qed

section \<open>Properties of the number format\<close>

declare dec_digits.simps [simp del]

lemma digit_val_digit_char: "k < 10 \<Longrightarrow> digit_val (digit_char k) = k"
  by (simp add: digit_val_def digit_char_def)

lemma is_digit_digit_char: "k < 10 \<Longrightarrow> is_digit (digit_char k)"
  by (simp add: is_digit_def digit_char_def)

lemma dec_digits_digits: "list_all is_digit (dec_digits n)"
proof (induction n rule: dec_digits.induct)
  case (1 n)
  show ?case
  proof (cases "n < 10")
    case True
    then show ?thesis
      by (subst dec_digits.simps) (simp add: is_digit_digit_char)
  next
    case False
    with "1.IH" show ?thesis
      by (subst dec_digits.simps) (simp add: is_digit_digit_char)
  qed
qed

lemma dec_digits_not_empty: "dec_digits n \<noteq> []"
  by (subst dec_digits.simps) simp

lemma read_nat_snoc: "read_nat (s @ [c]) = 10 * read_nat s + digit_val c"
  by (simp add: read_nat_def)

lemma read_nat_dec_digits: "read_nat (dec_digits n) = n"
proof (induction n rule: dec_digits.induct)
  case (1 n)
  show ?case
  proof (cases "n < 10")
    case True
    then show ?thesis
      by (subst dec_digits.simps) (simp add: read_nat_def digit_val_digit_char)
  next
    case False
    with "1.IH" show ?thesis
      by (subst dec_digits.simps) (simp add: read_nat_snoc digit_val_digit_char)
  qed
qed

lemma length_dec_digits: "n < 10 ^ d \<Longrightarrow> 0 < d \<Longrightarrow> length (dec_digits n) \<le> d"
proof (induction n arbitrary: d rule: dec_digits.induct)
  case (1 n)
  show ?case
  proof (cases "n < 10")
    case True
    with "1.prems" show ?thesis
      by (subst dec_digits.simps) simp
  next
    case False
    from "1.prems" obtain e where d: "d = Suc e" by (cases d) auto
    from False "1.prems" d have e: "0 < e" by (cases e) auto
    from "1.prems" d have "n div 10 < 10 ^ e"
      by (simp add: less_mult_imp_div_less mult.commute)
    from "1.IH" [OF False this e] False d show ?thesis
      by (subst dec_digits.simps) simp
  qed
qed

lemma read_nat_zeros: "read_nat (replicate k (CHR ''0'') @ s) = read_nat s"
proof -
  have "foldl (\<lambda>a c. 10 * a + digit_val c) 0 (replicate k (CHR ''0'')) = 0"
    by (induction k) (simp_all add: digit_val_def)
  then show ?thesis by (simp add: read_nat_def)
qed

lemma is_digit_plain: "is_digit c \<Longrightarrow> c \<noteq> CHR ''.'' \<and> c \<noteq> CHR ''-'' \<and> \<not> needs_quotes c"
  by (auto simp: is_digit_def needs_quotes_def)

lemma is_digit_zero: "is_digit (CHR ''0'')"
  by (simp add: is_digit_def)

lemma zero_pad_digits: "list_all is_digit s \<Longrightarrow> list_all is_digit (zero_pad d s)"
  by (auto simp: zero_pad_def list_all_iff is_digit_zero)

lemma zero_pad_length: "length s \<le> d \<Longrightarrow> length (zero_pad d s) = d"
  by (simp add: zero_pad_def)

lemma read_nat_zero_pad: "read_nat (zero_pad d s) = read_nat s"
  by (simp add: zero_pad_def read_nat_zeros)

lemma round_half_even_close: "\<bar>real_of_int (round_half_even y) - y\<bar> \<le> 1 / 2"
  unfolding round_half_even_def Let_def by (auto simp: abs_if) linarith+

lemma round_half_even_nonneg: "0 \<le> y \<Longrightarrow> 0 \<le> round_half_even y"
  unfolding round_half_even_def Let_def by auto

lemma format_fixed_parts:
  assumes "0 < d"
  shows "\<exists>n ip fp. n = nat (round_half_even (\<bar>x\<bar> * 10 ^ d))
     \<and> format_fixed d x = (if x < 0 then [CHR ''-''] else []) @ ip @ [CHR ''.''] @ fp
     \<and> list_all is_digit ip \<and> ip \<noteq> [] \<and> list_all is_digit fp \<and> length fp = d
     \<and> read_nat ip = n div 10 ^ d \<and> read_nat fp = n mod 10 ^ d"
proof -
  define n where "n = nat (round_half_even (\<bar>x\<bar> * 10 ^ d))"
  define ip where "ip = dec_digits (n div 10 ^ d)"
  define fp where "fp = zero_pad d (dec_digits (n mod 10 ^ d))"
  have "n mod 10 ^ d < 10 ^ d" by simp
  from length_dec_digits [OF this assms] have "length fp = d"
    unfolding fp_def by (rule zero_pad_length)
  moreover have "format_fixed d x = (if x < 0 then [CHR ''-''] else []) @ ip @ [CHR ''.''] @ fp"
    by (simp add: format_fixed_def Let_def n_def ip_def fp_def)
  moreover have "list_all is_digit ip" "ip \<noteq> []" "read_nat ip = n div 10 ^ d"
    by (simp_all add: ip_def dec_digits_digits dec_digits_not_empty read_nat_dec_digits)
  moreover have "list_all is_digit fp" "read_nat fp = n mod 10 ^ d"
    by (simp_all add: fp_def dec_digits_digits zero_pad_digits read_nat_zero_pad read_nat_dec_digits)
  ultimately show ?thesis using n_def by blast
qed

lemma unsigned_parts:
  assumes "list_all is_digit ip" "ip \<noteq> []"
  shows "unsigned ((if neg then [CHR ''-''] else []) @ ip @ [CHR ''.''] @ fp) = ip @ [CHR ''.''] @ fp"
proof (cases neg)
  case True
  then show ?thesis by (simp add: unsigned_def)
next
  case False
  from assms obtain c cs where ip: "ip = c # cs" "is_digit c" by (cases ip) auto
  with is_digit_plain [of c] False show ?thesis by (simp add: unsigned_def)
qed

lemma split_at_point:
  assumes "list_all is_digit ip"
  shows "takeWhile (\<lambda>c. c \<noteq> CHR ''.'') (ip @ [CHR ''.''] @ fp) = ip"
    and "drop 1 (dropWhile (\<lambda>c. c \<noteq> CHR ''.'') (ip @ [CHR ''.''] @ fp)) = fp"
proof -
  from assms have p: "\<And>c. c \<in> set ip \<Longrightarrow> c \<noteq> CHR ''.''"
    using is_digit_plain by (auto simp: list_all_iff)
  show "takeWhile (\<lambda>c. c \<noteq> CHR ''.'') (ip @ [CHR ''.''] @ fp) = ip"
    using p by (simp add: takeWhile_append2)
  show "drop 1 (dropWhile (\<lambda>c. c \<noteq> CHR ''.'') (ip @ [CHR ''.''] @ fp)) = fp"
    using p by (simp add: dropWhile_append2)
qed

lemma format_fixed_fraction:
  assumes "0 < d"
  shows "length (fraction_digits (format_fixed d x)) = d"
    and "list_all is_digit (fraction_digits (format_fixed d x))"
proof -
  from format_fixed_parts [OF assms, of x] obtain ip fp where
    f: "format_fixed d x = (if x < 0 then [CHR ''-''] else []) @ ip @ [CHR ''.''] @ fp"
      "list_all is_digit ip" "ip \<noteq> []" "list_all is_digit fp" "length fp = d"
    by blast
  have "fraction_digits (format_fixed d x) = fp"
    unfolding fraction_digits_def f(1) unsigned_parts [OF f(2,3)] by (rule split_at_point(2) [OF f(2)])
  with f show "length (fraction_digits (format_fixed d x)) = d"
    and "list_all is_digit (fraction_digits (format_fixed d x))" by simp_all
qed

lemma format_fixed_value:
  assumes "0 < d"
  shows "\<bar>decimal_value (format_fixed d x) - x\<bar> \<le> 1 / (2 * 10 ^ d)"
proof -
  from format_fixed_parts [OF assms, of x] obtain n ip fp where
    n: "n = nat (round_half_even (\<bar>x\<bar> * 10 ^ d))" and
    f: "format_fixed d x = (if x < 0 then [CHR ''-''] else []) @ ip @ [CHR ''.''] @ fp"
      "list_all is_digit ip" "ip \<noteq> []" "list_all is_digit fp" "length fp = d" and
    r: "read_nat ip = n div 10 ^ d" "read_nat fp = n mod 10 ^ d"
    by blast
  let ?q = "10 ^ d :: real"
  have q: "0 < ?q" by simp
  have fr: "fraction_digits (format_fixed d x) = fp"
    unfolding fraction_digits_def f(1) unsigned_parts [OF f(2,3)] by (rule split_at_point(2) [OF f(2)])
  have ir: "integer_digits (format_fixed d x) = ip"
    unfolding integer_digits_def f(1) unsigned_parts [OF f(2,3)] by (rule split_at_point(1) [OF f(2)])
  have "real n = real (n div 10 ^ d * 10 ^ d + n mod 10 ^ d)"
    by (simp only: div_mult_mod_eq)
  also have "\<dots> = real (n div 10 ^ d) * ?q + real (n mod 10 ^ d)"
    by (simp only: of_nat_add of_nat_mult of_nat_power of_nat_numeral)
  finally have v: "real (n div 10 ^ d) + real (n mod 10 ^ d) / ?q = real n / ?q"
    using q by (simp add: field_simps)
  have nn: "0 \<le> round_half_even (\<bar>x\<bar> * ?q)"
    by (rule round_half_even_nonneg) simp
  then have "real n = real_of_int (round_half_even (\<bar>x\<bar> * ?q))" by (simp add: n)
  with round_half_even_close [of "\<bar>x\<bar> * ?q"] have "\<bar>real n - \<bar>x\<bar> * ?q\<bar> \<le> 1 / 2" by simp
  then have "\<bar>real n - \<bar>x\<bar> * ?q\<bar> / ?q \<le> (1 / 2) / ?q"
    by (rule divide_right_mono) simp
  moreover have "\<bar>real n - \<bar>x\<bar> * ?q\<bar> / ?q = \<bar>real n / ?q - \<bar>x\<bar>\<bar>"
  proof -
    have "\<bar>real n - \<bar>x\<bar> * ?q\<bar> / ?q = \<bar>(real n - \<bar>x\<bar> * ?q) / ?q\<bar>" using q by simp
    also have "(real n - \<bar>x\<bar> * ?q) / ?q = real n / ?q - \<bar>x\<bar>" using q by (simp add: field_simps)
    finally show ?thesis .
  qed
  ultimately have c: "\<bar>real n / ?q - \<bar>x\<bar>\<bar> \<le> 1 / (2 * ?q)" by simp
  show ?thesis
  proof (cases "x < 0")
    case True
    then have "decimal_value (format_fixed d x) = - (real n / ?q)"
      unfolding decimal_value_def Let_def ir fr r f(5) v by (simp add: f(1))
    with c True show ?thesis by simp
  next
    case False
    from f(2,3) obtain c' cs where ip: "ip = c' # cs" "is_digit c'" by (cases ip) auto
    with False is_digit_plain [of c'] have "decimal_value (format_fixed d x) = real n / ?q"
      unfolding decimal_value_def Let_def ir fr r f(5) v by (simp add: f(1))
    with c False show ?thesis by simp
  qed
qed

lemma csv_field_format_fixed:
  assumes "0 < d"
  shows "csv_field (format_fixed d x) = format_fixed d x"
proof -
  from format_fixed_parts [OF assms, of x] obtain ip fp where
    f: "format_fixed d x = (if x < 0 then [CHR ''-''] else []) @ ip @ [CHR ''.''] @ fp"
      "list_all is_digit ip" "list_all is_digit fp"
    by blast
  have "\<not> needs_quotes (CHR ''-'')" "\<not> needs_quotes (CHR ''.'')"
    by (simp_all add: needs_quotes_def)
  with f(2,3) have "\<not> list_ex needs_quotes (format_fixed d x)"
    using is_digit_plain unfolding f(1) by (auto simp: list_all_iff list_ex_iff)
  then show ?thesis by (simp add: csv_field_def)
qed

lemma csv_field_labels:
  "csv_field ''tempo_bpm'' = ''tempo_bpm''" "csv_field ''beat_time_s'' = ''beat_time_s''"
  by (simp_all add: csv_field_def needs_quotes_def)

lemma beat_rows_text:
  "concat (map writerow (map (\<lambda>t. [format_fixed 6 t]) beat_times))
     = concat (map (\<lambda>t. format_fixed 6 t @ crlf) beat_times)"
  by (induction beat_times) (simp_all add: writerow_def csv_field_format_fixed)

section \<open>The matcher\<close>



text \<open>
  C4. When either sequence is empty the matcher returns two empty sequences and the lag
  search returns 0.0; both are returned values, not errors.
\<close>

theorem empty_input_results:
  "nearest_beat_errors [] beat_times = Inr ([], [])
   \<and> nearest_beat_errors event_times [] = Inr ([], [])
   \<and> estimate_best_lag [] beat_times s = Inr 0
   \<and> estimate_best_lag event_times [] s = Inr 0"
  by (simp add: nearest_beat_errors_def estimate_best_lag_def)

theorem empty_input_results_witness:
  "nearest_beat_errors [] [1, 2] = Inr ([], [])
   \<and> nearest_beat_errors [21 / 20] [] = Inr ([], [])
   \<and> estimate_best_lag [] [1, 2] 300 = Inr 0
   \<and> estimate_best_lag [21 / 20] [] 300 = Inr 0"
  using empty_input_results [of "[1, 2]" "[21 / 20]" 300] by simp

section \<open>The lag search\<close>

text \<open>
  C2. For non-empty sequences and a positive search window the candidates are 121 lags,
  equally spaced from \<open>- s\<close> to \<open>s\<close> in ascending order (in exact arithmetic; the
  program's grid is these values rounded, and ends at \<open>s\<close>). A candidate is scored by
  shifting every event by \<open>lag / 1000\<close> seconds, running the matcher and taking the
  median of the absolute errors. The lag returned is the candidate whose computed score
  is lowest, the first such in the scan: no candidate has a smaller computed score, and
  every candidate before it has a strictly greater one. This holds of the scores as the
  program computes them, whatever the rounding \<open>rnd\<close> of its arithmetic and whichever
  beat index \<open>nn\<close> the query reports.
\<close>

theorem estimate_best_lag_stable_minimum:
  assumes "event_times \<noteq> []" "beat_times \<noteq> []" "0 < s"
    and "\<And>x. nn beat_times x < length beat_times"
  shows "length (linspace (- s) s 121) = 121
     \<and> (\<forall>k<121. linspace (- s) s 121 ! k = - s + real k * (2 * s / 120))
     \<and> (\<forall>j<121. \<forall>k<121. j < k \<longrightarrow> linspace (- s) s 121 ! j < linspace (- s) s 121 ! k)
     \<and> linspace_fl (\<lambda>x. x) (- s) s 121 = linspace (- s) s 121
     \<and> length (linspace_fl rnd (- s) s 121) = 121
     \<and> linspace_fl rnd (- s) s 121 ! 120 = s
     \<and> (\<forall>lag. \<exists>nearest errs.
           nearest_beat_errors_fl rnd nn (map (\<lambda>t. rnd (t + rnd (lag / 1000))) event_times) beat_times
             = Inr (nearest, errs)
           \<and> lag_score_fl rnd nn event_times beat_times lag
             = Inr (Finite (median_fl rnd (map abs errs))))
     \<and> (\<exists>k<121.
           estimate_best_lag_fl rnd nn event_times beat_times s = Inr (linspace_fl rnd (- s) s 121 ! k)
         \<and> (\<exists>sk. lag_score_fl rnd nn event_times beat_times (linspace_fl rnd (- s) s 121 ! k)
                   = Inr (Finite sk)
              \<and> (\<forall>j<121. \<exists>sj.
                    lag_score_fl rnd nn event_times beat_times (linspace_fl rnd (- s) s 121 ! j)
                      = Inr (Finite sj)
                    \<and> sk \<le> sj \<and> (j < k \<longrightarrow> sk < sj))))"
proof (intro conjI)
  show "length (linspace (- s) s 121) = 121" by (rule linspace_length)
  show "\<forall>k<121. linspace (- s) s 121 ! k = - s + real k * (2 * s / 120)"
    by (simp add: grid_nth)
  show "\<forall>j<121. \<forall>k<121. j < k \<longrightarrow> linspace (- s) s 121 ! j < linspace (- s) s 121 ! k"
    using assms(3) by (simp add: grid_nth)
  show "linspace_fl (\<lambda>x. x) (- s) s 121 = linspace (- s) s 121"
    by (rule linspace_fl_exact)
  show "length (linspace_fl rnd (- s) s 121) = 121" by (rule linspace_fl_length)
  show "linspace_fl rnd (- s) s 121 ! 120 = s"
    using linspace_fl_last [of 121 rnd "- s" s] by simp
  show "\<forall>lag. \<exists>nearest errs.
           nearest_beat_errors_fl rnd nn (map (\<lambda>t. rnd (t + rnd (lag / 1000))) event_times) beat_times
             = Inr (nearest, errs)
           \<and> lag_score_fl rnd nn event_times beat_times lag
             = Inr (Finite (median_fl rnd (map abs errs)))"
    using lag_score_fl_finite [where nn = nn and beat_times = beat_times, OF assms(1,2,4)] by blast
  show "\<exists>k<121.
           estimate_best_lag_fl rnd nn event_times beat_times s = Inr (linspace_fl rnd (- s) s 121 ! k)
         \<and> (\<exists>sk. lag_score_fl rnd nn event_times beat_times (linspace_fl rnd (- s) s 121 ! k)
                   = Inr (Finite sk)
              \<and> (\<forall>j<121. \<exists>sj.
                    lag_score_fl rnd nn event_times beat_times (linspace_fl rnd (- s) s 121 ! j)
                      = Inr (Finite sj)
                    \<and> sk \<le> sj \<and> (j < k \<longrightarrow> sk < sj)))"
    by (rule estimate_best_lag_fl_first_min [where nn = nn and beat_times = beat_times, OF assms(1,2,4)])
qed

theorem estimate_best_lag_stable_minimum_witness:
  "[21 / 20] \<noteq> ([] :: real list) \<and> [1] \<noteq> ([] :: real list) \<and> (0 :: real) < 100
   \<and> (\<forall>x. nearest_index [1] x < length [1 :: real])
   \<and> estimate_best_lag_fl (\<lambda>x. x) nearest_index [21 / 20] [1] 100 = Inr (- 50)"
proof -
  have ne: "[21 / 20] \<noteq> ([] :: real list)" "[1] \<noteq> ([] :: real list)" and pos: "(0 :: real) < 100"
    and nn: "\<And>x. nearest_index [1] x < length [1 :: real]"
    by simp_all
  let ?lags = "linspace (- 100) 100 121"
  let ?sc = "lag_score [21 / 20] [1]"
  have ex: "linspace_fl (\<lambda>x. x) (- 100) 100 121 = ?lags"
    "lag_score_fl (\<lambda>x. x) nearest_index [21 / 20] [1] = ?sc"
    by (rule linspace_fl_exact) (rule ext, rule lag_score_fl_exact)
  from estimate_best_lag_stable_minimum
    [where nn = nearest_index and beat_times = "[1]" and rnd = "\<lambda>x. x", OF ne pos nn]
  have "\<exists>k<121. estimate_best_lag_fl (\<lambda>x. x) nearest_index [21 / 20] [1] 100 = Inr (?lags ! k)
         \<and> (\<exists>sk. ?sc (?lags ! k) = Inr (Finite sk)
              \<and> (\<forall>j<121. \<exists>sj. ?sc (?lags ! j) = Inr (Finite sj)
                    \<and> sk \<le> sj \<and> (j < k \<longrightarrow> sk < sj)))"
    unfolding ex by (elim conjE)
  then obtain k sk where
    k: "k < 121" "estimate_best_lag_fl (\<lambda>x. x) nearest_index [21 / 20] [1] 100 = Inr (?lags ! k)"
      "?sc (?lags ! k) = Inr (Finite sk)"
      "\<forall>j<121. \<exists>sj. ?sc (?lags ! j) = Inr (Finite sj) \<and> sk \<le> sj \<and> (j < k \<longrightarrow> sk < sj)"
    by blast
  have l30: "?lags ! 30 = - 50"
    using grid_nth [of 30 100] by simp
  from spec [OF k(4), of 30]
  have "\<exists>sj. ?sc (?lags ! 30) = Inr (Finite sj) \<and> sk \<le> sj"
    by auto
  then have "sk \<le> 0" by (simp add: l30 single_score)
  moreover from k(3) have "sk = \<bar>50 + ?lags ! k\<bar>" by (simp add: single_score)
  ultimately have "?lags ! k = - 50" by simp
  with k(2) ne pos nn show ?thesis by simp
qed

text \<open>
  C3. For a positive search range \<open>s\<close> the lag search returns a value between \<open>- s\<close>
  and \<open>s\<close>, both ends included, whatever the two sequences are.
\<close>

theorem estimate_best_lag_in_range:
  assumes "0 < s"
  shows "\<exists>lag. estimate_best_lag event_times beat_times s = Inr lag \<and> - s \<le> lag \<and> lag \<le> s"
proof (cases "event_times = [] \<or> beat_times = []")
  case True
  with assms show ?thesis by (auto simp: estimate_best_lag_def)
next
  case False
  then have ne: "event_times \<noteq> []" "beat_times \<noteq> []" by simp_all
  from estimate_best_lag_first_min [OF ne, of s] obtain k where
    k: "k < 121" "estimate_best_lag event_times beat_times s = Inr (linspace (- s) s 121 ! k)"
    by blast
  from grid_abs [OF k(1), of s] assms
  have "- s \<le> - s + real k * (2 * s / 120) \<and> - s + real k * (2 * s / 120) \<le> s"
    by (simp only: abs_le_iff abs_of_pos) simp
  with k show ?thesis by (simp add: grid_nth)
qed

theorem estimate_best_lag_in_range_witness:
  "(0 :: real) < 100
   \<and> (\<exists>lag. estimate_best_lag [21 / 20] [1] 100 = Inr lag \<and> - 100 \<le> lag \<and> lag \<le> 100)"
proof -
  have pos: "(0 :: real) < 100" by simp
  from estimate_best_lag_in_range [OF pos, of "[21 / 20]" "[1]"] pos show ?thesis
    by blast
qed

text \<open>
  C10. For a positive search range \<open>s\<close> the value returned is one of the 121 grid points
  \<open>- s + k * (2 * s / 120)\<close> with \<open>0 \<le> k \<le> 120\<close>; the 0.0 of the empty-input case is
  the middle point \<open>k = 60\<close>. Neighbouring grid points are \<open>s / 60\<close> apart, so the
  resolution grows with the search range.
\<close>

theorem estimate_best_lag_on_grid:
  assumes "0 < s"
  shows "(\<exists>k\<le>120. estimate_best_lag event_times beat_times s = Inr (- s + real k * (2 * s / 120)))
     \<and> (event_times = [] \<or> beat_times = [] \<longrightarrow>
          estimate_best_lag event_times beat_times s = Inr (- s + real (60::nat) * (2 * s / 120)))
     \<and> (\<forall>k<120. linspace (- s) s 121 ! Suc k - linspace (- s) s 121 ! k = s / 60)"
proof (intro conjI)
  have mid: "- s + real (60::nat) * (2 * s / 120) = 0" by simp
  show "\<exists>k\<le>120. estimate_best_lag event_times beat_times s = Inr (- s + real k * (2 * s / 120))"
  proof (cases "event_times = [] \<or> beat_times = []")
    case True
    then have "estimate_best_lag event_times beat_times s = Inr (- s + real (60::nat) * (2 * s / 120))"
      by (auto simp: estimate_best_lag_def)
    then show ?thesis by (intro exI [of _ 60]) simp
  next
    case False
    then have ne: "event_times \<noteq> []" "beat_times \<noteq> []" by simp_all
    from estimate_best_lag_first_min [OF ne, of s] obtain k where
      k: "k < 121" "estimate_best_lag event_times beat_times s = Inr (linspace (- s) s 121 ! k)"
      by blast
    then show ?thesis by (intro exI [of _ k]) (simp add: grid_nth)
  qed
  show "event_times = [] \<or> beat_times = [] \<longrightarrow>
          estimate_best_lag event_times beat_times s = Inr (- s + real (60::nat) * (2 * s / 120))"
    by (auto simp: estimate_best_lag_def)
  show "\<forall>k<120. linspace (- s) s 121 ! Suc k - linspace (- s) s 121 ! k = s / 60"
    by (simp add: grid_nth algebra_simps)
qed

theorem estimate_best_lag_on_grid_witness:
  "(0 :: real) < 100
   \<and> (\<exists>k\<le>120. estimate_best_lag [21 / 20] [1] 100 = Inr (- 100 + real k * (2 * 100 / 120)))
   \<and> estimate_best_lag [] [1] 100 = Inr (- 100 + real (60::nat) * (2 * 100 / 120))
   \<and> linspace (- 100) 100 121 ! Suc 0 - linspace (- 100) 100 121 ! 0 = 100 / 60"
proof -
  have pos: "(0 :: real) < 100" by simp
  from estimate_best_lag_on_grid [OF pos, of "[21 / 20]" "[1]"]
  have a: "\<exists>k\<le>120. estimate_best_lag [21 / 20] [1] 100 = Inr (- 100 + real k * (2 * 100 / 120))"
    and c: "\<forall>k<120. linspace (- 100) 100 121 ! Suc k - linspace (- 100) 100 121 ! k = 100 / 60"
    by blast+
  from estimate_best_lag_on_grid [OF pos, of "[]" "[1]"]
  have b: "estimate_best_lag [] [1] 100 = Inr (- 100 + real (60::nat) * (2 * 100 / 120))"
    by blast
  from spec [OF c, of 0]
  have "linspace (- 100) 100 121 ! Suc 0 - linspace (- 100) 100 121 ! 0 = 100 / 60"
    by simp
  with pos a b show ?thesis by blast
qed

text \<open>
  C8. The claim that a non-positive search range is rejected does not hold: the lag
  search runs on the grid from \<open>- s\<close> to \<open>s\<close> whatever the sign of \<open>s\<close>. With the
  range \<open>- 100\<close>, one event at 1.05 s and one beat at 1 s it returns the lag \<open>- 50\<close>.
\<close>

theorem negative_range_counterexample:
  "estimate_best_lag [21 / 20] [1] (- 100) = Inr (- 50)"
proof -
  have ne: "[21 / 20] \<noteq> ([] :: real list)" "[1] \<noteq> ([] :: real list)" by simp_all
  let ?lags = "linspace 100 (- 100) 121"
  have "\<exists>k<121. estimate_best_lag [21 / 20] [1] (- 100) = Inr (?lags ! k)
     \<and> (\<exists>sk. lag_score [21 / 20] [1] (?lags ! k) = Inr (Finite sk)
          \<and> (\<forall>j<121. \<exists>sj. lag_score [21 / 20] [1] (?lags ! j) = Inr (Finite sj)
                \<and> sk \<le> sj \<and> (j < k \<longrightarrow> sk < sj)))"
    using estimate_best_lag_first_min [OF ne, of "- 100"] by simp
  then obtain k sk where
    k: "k < 121" "estimate_best_lag [21 / 20] [1] (- 100) = Inr (?lags ! k)"
      "lag_score [21 / 20] [1] (?lags ! k) = Inr (Finite sk)"
      "\<forall>j<121. \<exists>sj. lag_score [21 / 20] [1] (?lags ! j) = Inr (Finite sj)
                \<and> sk \<le> sj \<and> (j < k \<longrightarrow> sk < sj)"
    by blast
  have l90: "?lags ! 90 = - 50"
    using grid_nth [of 90 "- 100"] by simp
  from spec [OF k(4), of 90]
  have "\<exists>sj. lag_score [21 / 20] [1] (?lags ! 90) = Inr (Finite sj) \<and> sk \<le> sj"
    by auto
  then have "sk \<le> 0" by (simp add: l90 single_score)
  moreover from k(3) have "sk = \<bar>50 + ?lags ! k\<bar>" by (simp add: single_score)
  ultimately have "?lags ! k = - 50" by simp
  with k(2) show ?thesis by simp
qed

text \<open>
  C8, as the code has it: for a non-positive search range \<open>s\<close> the lag search returns a
  lag, of absolute value at most \<open>\<bar>s\<bar>\<close>, and no error.
\<close>

theorem estimate_best_lag_unchecked_range:
  assumes "s \<le> 0"
  shows "\<exists>lag. estimate_best_lag event_times beat_times s = Inr lag \<and> \<bar>lag\<bar> \<le> \<bar>s\<bar>"
proof (cases "event_times = [] \<or> beat_times = []")
  case True
  then show ?thesis by (auto simp: estimate_best_lag_def)
next
  case False
  then have ne: "event_times \<noteq> []" "beat_times \<noteq> []" by simp_all
  from estimate_best_lag_first_min [OF ne, of s] obtain k where
    k: "k < 121" "estimate_best_lag event_times beat_times s = Inr (linspace (- s) s 121 ! k)"
    by blast
  with grid_abs [OF k(1), of s] show ?thesis by (simp add: grid_nth)
qed

theorem estimate_best_lag_unchecked_range_witness:
  "(- 100 :: real) \<le> 0
   \<and> (\<exists>lag. estimate_best_lag [21 / 20] [1] (- 100) = Inr lag \<and> \<bar>lag\<bar> \<le> \<bar>- 100\<bar>)"
proof -
  have np: "(- 100 :: real) \<le> 0" by simp
  from estimate_best_lag_unchecked_range [OF np, of "[21 / 20]" "[1]"] np show ?thesis
    by blast
qed

text \<open>
  C5. Beats at 1, 2, 3 and 4 s and events 50 ms after each of them. The unshifted events
  have the errors 50, 50, 50, 50; the lag search over the range 100 returns \<open>- 50\<close>;
  matching the events shifted by that lag gives the errors 0, 0, 0, 0, whose median
  absolute value is 0, below one grid step. (In this embedding the values are exact; the
  floats of the program are within rounding of them.)
\<close>

theorem late_events_scenario:
  "nearest_beat_errors [21 / 20, 41 / 20, 61 / 20, 81 / 20] [1, 2, 3, 4]
     = Inr ([1, 2, 3, 4], [50, 50, 50, 50])
   \<and> estimate_best_lag [21 / 20, 41 / 20, 61 / 20, 81 / 20] [1, 2, 3, 4] 100 = Inr (- 50)
   \<and> nearest_beat_errors (map (\<lambda>t. t + (- 50) / 1000) [21 / 20, 41 / 20, 61 / 20, 81 / 20]) [1, 2, 3, 4]
     = Inr ([1, 2, 3, 4], [0, 0, 0, 0])
   \<and> median (map abs [0, 0, 0, 0]) = 0"
proof (intro conjI)
  let ?ev = "[21 / 20, 41 / 20, 61 / 20, 81 / 20] :: real list"
  let ?bt = "[1, 2, 3, 4] :: real list"
  let ?lags = "linspace (- 100) 100 121"
  have ne: "?ev \<noteq> []" "?bt \<noteq> []" by simp_all
  show "nearest_beat_errors ?ev ?bt = Inr ([1, 2, 3, 4], [50, 50, 50, 50])"
    using shifted_match [of 0] by simp
  have m: "map (\<lambda>t. t + (- 50) / 1000) ?ev
      = [21 / 20 + (- 1 / 20), 41 / 20 + (- 1 / 20), 61 / 20 + (- 1 / 20), 81 / 20 + (- 1 / 20)]"
    by simp
  show "nearest_beat_errors (map (\<lambda>t. t + (- 50) / 1000) ?ev) ?bt = Inr ([1, 2, 3, 4], [0, 0, 0, 0])"
    unfolding m using shifted_match [of "- 1 / 20"] by simp
  show "median (map abs [0, 0, 0, 0]) = 0"
    using median4 [of 0] by simp
  from estimate_best_lag_first_min [OF ne, of 100] obtain k sk where
    k: "k < 121" "estimate_best_lag ?ev ?bt 100 = Inr (?lags ! k)"
      "lag_score ?ev ?bt (?lags ! k) = Inr (Finite sk)"
      "\<forall>j<121. \<exists>sj. lag_score ?ev ?bt (?lags ! j) = Inr (Finite sj)
                \<and> sk \<le> sj \<and> (j < k \<longrightarrow> sk < sj)"
    by blast
  have l30: "?lags ! 30 = - 50"
    using grid_nth [of 30 100] by simp
  from grid_abs [OF k(1), of 100] have b: "- 100 \<le> ?lags ! k" "?lags ! k \<le> 100"
    by (simp_all add: grid_nth [OF k(1)] abs_le_iff)
  have s30: "lag_score ?ev ?bt (- 50) = Inr (Finite 0)"
    using late_events_score [of "- 50"] by simp
  from spec [OF k(4), of 30]
  have "\<exists>sj. lag_score ?ev ?bt (?lags ! 30) = Inr (Finite sj) \<and> sk \<le> sj"
    by auto
  then have "sk \<le> 0" unfolding l30 s30 by simp
  moreover from k(3) have "sk = \<bar>50 + ?lags ! k\<bar>"
    unfolding late_events_score [OF b] by simp
  ultimately have "?lags ! k = - 50" by simp
  with k(2) show "estimate_best_lag ?ev ?bt 100 = Inr (- 50)" by simp
qed

section \<open>The beats file\<close>

text \<open>
  C9. For every tempo and beat sequence \<^verbatim>\<open>write_beats_csv\<close> writes a first row that holds
  the tempo with 4 digits after the decimal point and, after the row that labels the
  beat column, one row per beat timestamp, in order, each with 6 digits after the point.
  A formatted number differs from the number written by at most half a unit of its last
  digit.
\<close>

theorem write_beats_csv_format:
  "snd (write_beats_csv fs out_path tempo_bpm beat_times) = out_path
   \<and> beats_rows tempo_bpm beat_times
       = [''tempo_bpm'', format_fixed 4 tempo_bpm] # [''beat_time_s'']
         # map (\<lambda>t. [format_fixed 6 t]) beat_times
   \<and> fst (write_beats_csv fs out_path tempo_bpm beat_times) out_path
       = Some (''tempo_bpm,'' @ format_fixed 4 tempo_bpm @ crlf @ ''beat_time_s'' @ crlf
               @ concat (map (\<lambda>t. format_fixed 6 t @ crlf) beat_times))
   \<and> length (fraction_digits (format_fixed 4 tempo_bpm)) = 4
   \<and> list_all is_digit (fraction_digits (format_fixed 4 tempo_bpm))
   \<and> \<bar>decimal_value (format_fixed 4 tempo_bpm) - tempo_bpm\<bar> \<le> 1 / 20000
   \<and> (\<forall>t. length (fraction_digits (format_fixed 6 t)) = 6
          \<and> list_all is_digit (fraction_digits (format_fixed 6 t))
          \<and> \<bar>decimal_value (format_fixed 6 t) - t\<bar> \<le> 1 / 2000000)"
proof (intro conjI allI)
  show "snd (write_beats_csv fs out_path tempo_bpm beat_times) = out_path"
    by (simp add: write_beats_csv_def)
  show "beats_rows tempo_bpm beat_times
       = [''tempo_bpm'', format_fixed 4 tempo_bpm] # [''beat_time_s'']
         # map (\<lambda>t. [format_fixed 6 t]) beat_times"
    by (simp add: beats_rows_def)
  have h: "writerow [''tempo_bpm'', format_fixed 4 tempo_bpm]
      = ''tempo_bpm,'' @ format_fixed 4 tempo_bpm @ crlf"
    by (simp add: writerow_def csv_field_labels csv_field_format_fixed)
  have l: "writerow [''beat_time_s''] = ''beat_time_s'' @ crlf"
    by (simp add: writerow_def csv_field_labels)
  show "fst (write_beats_csv fs out_path tempo_bpm beat_times) out_path
       = Some (''tempo_bpm,'' @ format_fixed 4 tempo_bpm @ crlf @ ''beat_time_s'' @ crlf
               @ concat (map (\<lambda>t. format_fixed 6 t @ crlf) beat_times))"
    unfolding write_beats_csv_def beats_rows_def list.map concat.simps h l beat_rows_text
    by simp
  show "length (fraction_digits (format_fixed 4 tempo_bpm)) = 4"
    by (rule format_fixed_fraction) simp
  show "list_all is_digit (fraction_digits (format_fixed 4 tempo_bpm))"
    by (rule format_fixed_fraction) simp
  show "\<bar>decimal_value (format_fixed 4 tempo_bpm) - tempo_bpm\<bar> \<le> 1 / 20000"
    using format_fixed_value [of 4 tempo_bpm] by simp
  show "length (fraction_digits (format_fixed 6 t)) = 6" for t
    by (rule format_fixed_fraction) simp
  show "list_all is_digit (fraction_digits (format_fixed 6 t))" for t
    by (rule format_fixed_fraction) simp
  show "\<bar>decimal_value (format_fixed 6 t) - t\<bar> \<le> 1 / 2000000" for t
    using format_fixed_value [of 6 t] by simp
qed


theorem write_beats_csv_format_witness:
  "fst (write_beats_csv Map.empty ''beats.csv'' (12018503 / 100000) [1 / 2, 1]) ''beats.csv''
     = Some (''tempo_bpm,120.1850'' @ crlf @ ''beat_time_s'' @ crlf
             @ ''0.500000'' @ crlf @ ''1.000000'' @ crlf)"
proof -
  have dc: "digit_char 0 = CHR ''0''" "digit_char (Suc 0) = CHR ''1''" "digit_char 2 = CHR ''2''"
    "digit_char 5 = CHR ''5''" "digit_char 8 = CHR ''8''"
    by (code_simp, code_simp, code_simp, code_simp, code_simp)
  have d: "dec_digits 120 = ''120''" "dec_digits 1850 = ''1850''" "dec_digits 0 = ''0''"
    "dec_digits 500000 = ''500000''" "dec_digits 1 = ''1''"
    by (simp_all add: dec_digits.simps dc)
  have n1: "nat (round_half_even (\<bar>12018503 / 100000\<bar> * 10 ^ 4)) = 1201850"
    by (simp add: round_half_even_def)
  have n2: "nat (round_half_even (\<bar>1 / 2\<bar> * 10 ^ 6)) = 500000"
    by (simp add: round_half_even_def)
  have n3: "nat (round_half_even (\<bar>1\<bar> * 10 ^ 6)) = 1000000"
    by (simp add: round_half_even_def)
  have q: "(1201850 :: nat) div 10 ^ 4 = 120" "(1201850 :: nat) mod 10 ^ 4 = 1850"
    "(500000 :: nat) div 10 ^ 6 = 0" "(500000 :: nat) mod 10 ^ 6 = 500000"
    "(1000000 :: nat) div 10 ^ 6 = 1" "(1000000 :: nat) mod 10 ^ 6 = 0"
    by simp_all
  have f1: "format_fixed 4 (12018503 / 100000) = ''120.1850''"
    unfolding format_fixed_def Let_def n1 q d by (simp add: zero_pad_def)
  have f2: "format_fixed 6 (1 / 2) = ''0.500000''"
    unfolding format_fixed_def Let_def n2 q d by (simp add: zero_pad_def)
  have f3: "format_fixed 6 1 = ''1.000000''"
    unfolding format_fixed_def Let_def n3 q d by (simp add: zero_pad_def eval_nat_numeral)
  have "fst (write_beats_csv Map.empty ''beats.csv'' (12018503 / 100000) [1 / 2, 1]) ''beats.csv''
     = Some (''tempo_bpm,'' @ format_fixed 4 (12018503 / 100000) @ crlf @ ''beat_time_s'' @ crlf
               @ concat (map (\<lambda>t. format_fixed 6 t @ crlf) [1 / 2, 1]))"
    by (rule write_beats_csv_format [THEN conjunct2, THEN conjunct2, THEN conjunct1])
  then show ?thesis
    unfolding list.map f1 f2 f3 by simp
qed

end
